theory Spec2Isabelle
  imports Main "HOL-Library.AList"
begin

section \<open>JavaScript values\<close>

text \<open>
  The values the middleware inspects. A function is a reference \<open>VFun n\<close>: two function
  values are the same reference exactly when their numbers agree. A plain object is the
  list of its own enumerable properties in insertion order; a well-formed object has no
  key twice. Numbers are the integers.
\<close>

datatype val =
    VUndefined
  | VNull
  | VBool bool
  | VNum int
  | VStr string
  | VFun nat
  | VArr "val list"
  | VObj "(string \<times> val) list"

type_synonym obj = "(string \<times> val) list"

text \<open>What the code throws: its own \<open>TypeError\<close>s, and any value raised by a collaborator
  or by user code.\<close>

datatype exn = TypeError string | Raised val

text \<open>\<open>typeof v\<close>.\<close>

fun typeof :: "val \<Rightarrow> string" where
  "typeof VUndefined = ''undefined''"
| "typeof VNull = ''object''"
| "typeof (VBool b) = ''boolean''"
| "typeof (VNum n) = ''number''"
| "typeof (VStr s) = ''string''"
| "typeof (VFun f) = ''function''"
| "typeof (VArr xs) = ''object''"
| "typeof (VObj kvs) = ''object''"

text \<open>Truthiness, as tested by \<open>if (v)\<close> and \<open>!v\<close>.\<close>

fun truthy :: "val \<Rightarrow> bool" where
  "truthy VUndefined = False"
| "truthy VNull = False"
| "truthy (VBool b) = b"
| "truthy (VNum n) = (n \<noteq> 0)"
| "truthy (VStr s) = (s \<noteq> [])"
| "truthy (VFun f) = True"
| "truthy (VArr xs) = True"
| "truthy (VObj kvs) = True"

text \<open>\<open>Array.isArray v\<close>.\<close>

fun isArray :: "val \<Rightarrow> bool" where
  "isArray (VArr xs) = True"
| "isArray _ = False"

text \<open>\<open>v === null || v === undefined\<close>.\<close>

fun nullish :: "val \<Rightarrow> bool" where
  "nullish VNull = True"
| "nullish VUndefined = True"
| "nullish _ = False"

text \<open>The decimal name of an array index.\<close>

fun show_nat :: "nat \<Rightarrow> string" where
  "show_nat n =
     (if n < 10 then [char_of (48 + n)]
      else show_nat (n div 10) @ [char_of (48 + n mod 10)])"

declare show_nat.simps [simp del]

text \<open>
  The own enumerable string-keyed properties of a value, in enumeration order: what
  \<open>for (key in v)\<close> visits on a value without inherited enumerable properties, what
  \<open>{...v}\<close> copies and what \<open>Object.assign(t, v)\<close> reads. Arrays and strings expose their
  indices; the other primitives, \<open>null\<close>, \<open>undefined\<close> and functions expose nothing.
\<close>

fun own_entries :: "val \<Rightarrow> obj" where
  "own_entries (VObj kvs) = kvs"
| "own_entries (VArr xs) = zip (map show_nat [0..<length xs]) xs"
| "own_entries (VStr s) = zip (map show_nat [0..<length s]) (map (\<lambda>c. VStr [c]) s)"
| "own_entries _ = []"

text \<open>\<open>v[k]\<close> for an own property: \<open>undefined\<close> when the key is absent.\<close>

definition get_prop :: "val \<Rightarrow> string \<Rightarrow> val" where
  "get_prop v k = (case map_of (own_entries v) k of Some x \<Rightarrow> x | None \<Rightarrow> VUndefined)"

text \<open>\<open>ob[k] = v\<close> on a plain object: an existing key keeps its place, a new key is added
  last.\<close>

definition put :: "string \<Rightarrow> val \<Rightarrow> obj \<Rightarrow> obj" where
  "put k v ob = AList.update k v ob"

text \<open>\<open>Object.assign(target, source)\<close> on a plain-object target: each own enumerable
  property of the source is assigned onto the target, in order.\<close>

definition object_assign :: "obj \<Rightarrow> val \<Rightarrow> obj" where
  "object_assign target source = fold (\<lambda>(k, v). put k v) (own_entries source) target"

text \<open>The object literal \<open>{...a, ...b}\<close>.\<close>

definition spread2 :: "val \<Rightarrow> val \<Rightarrow> obj" where
  "spread2 a b = object_assign (object_assign [] a) b"

section \<open>Helper functions of the middleware\<close>

text \<open>
  \<open>separateStateAndActions(obj)\<close>, with the build-time constant \<open>__DEV__\<close> as the
  parameter \<open>dev\<close>. The loop \<open>for (key in obj)\<close> is \<open>separate_loop\<close>, which carries the two
  objects under construction.
\<close>

fun separate_loop :: "obj \<Rightarrow> obj \<times> obj \<Rightarrow> obj \<times> obj" where
  "separate_loop [] (state, actions) = (state, actions)"
| "separate_loop ((key, v) # rest) (state, actions) =
     (if typeof v = ''function''
      then separate_loop rest (state, put key v actions)
      else separate_loop rest (put key v state, actions))"

definition separateStateAndActions :: "bool \<Rightarrow> val \<Rightarrow> exn + obj \<times> obj" where
  "separateStateAndActions dev obj =
     (if dev \<and> (\<not> truthy obj \<or> typeof obj \<noteq> ''object'')
      then Inl (TypeError (''[zustand-travel] Expected an object as initial state, received: '' @ typeof obj))
      else if dev \<and> isArray obj
      then Inl (TypeError ''[zustand-travel] Expected an object as initial state, received an array'')
      else Inr (separate_loop (own_entries obj) ([], [])))"

section \<open>Updaters, collaborators and the closure state\<close>

text \<open>
  The first argument of the dispatcher. A callable updater is given by what it does to the
  draft it is handed: it throws, or it leaves the draft in some state and returns a value
  (\<open>undefined\<close> for a procedure that only mutates). Drafts are plain objects. Anything
  else is a plain value; a function reference in that position still has type
  \<open>function\<close>.
\<close>

datatype updater =
    Callable "obj \<Rightarrow> exn + obj \<times> val"
  | Plain val

fun is_function :: "updater \<Rightarrow> bool" where
  "is_function (Callable f) = True"
| "is_function (Plain v) = (typeof v = ''function'')"

fun is_nullish :: "updater \<Rightarrow> bool" where
  "is_nullish (Callable f) = False"
| "is_nullish (Plain v) = nullish v"

text \<open>The navigation surface returned by \<open>travels.getControls()\<close>.\<close>

datatype control = Back nat | Forward nat | Go nat | Reset | Archive

text \<open>
  Every call that leaves the middleware, in the order made: the host's \<open>set\<close>, the
  engine's constructor, \<open>setState\<close> and \<open>subscribe\<close>, a call on the control surface,
  \<open>console.error\<close>, and the assignment of \<open>getControls\<close> onto the store handle.
\<close>

datatype event =
    Ev_set updater val
  | Ev_new_Travels obj obj
  | Ev_setState updater
  | Ev_subscribe
  | Ev_control control
  | Ev_console_error string exn
  | Ev_attach_getControls

text \<open>
  The collaborators are parameters. \<open>DEV\<close> is the build-time constant \<open>__DEV__\<close>.
  \<open>set_host partial replace s\<close> is the host container's native \<open>set\<close> on store state \<open>s\<close>:
  the state it leaves and the exception it throws, if any. \<open>new_Travels data options\<close> is
  the engine's constructor. \<open>setState u e\<close> and \<open>control_op c e\<close> are calls on an engine in
  state \<open>e\<close>: the engine's next state, the snapshots it hands to its subscribers during
  the call, in order, and the exception the call throws, if any.
\<close>

record 'e env =
  DEV :: bool
  set_host :: "updater \<Rightarrow> val \<Rightarrow> val \<Rightarrow> val \<times> exn option"
  new_Travels :: "obj \<Rightarrow> obj \<Rightarrow> exn + 'e"
  setState :: "updater \<Rightarrow> 'e \<Rightarrow> 'e \<times> val list \<times> exn option"
  control_op :: "control \<Rightarrow> 'e \<Rightarrow> 'e \<times> val list \<times> exn option"

text \<open>
  The variables the closure of \<open>travelImpl\<close> holds (\<open>travels\<close>, \<open>actions\<close>,
  \<open>isInitializing\<close>), together with what it acts on: whether its callback is subscribed
  to the engine, the host store's state, whether the store handle has \<open>getControls\<close>, and
  the calls made so far.
\<close>

record 'e world =
  isInitializing :: bool
  actions :: obj
  travels :: "'e option"
  subscribed :: bool
  store :: val
  hasControls :: bool
  trace :: "event list"

definition emit :: "event \<Rightarrow> 'e world \<Rightarrow> 'e world" where
  "emit ev w = w\<lparr>trace := trace w @ [ev]\<rparr>"

text \<open>A call \<open>set(partial, replace)\<close> on the host.\<close>

definition call_set :: "'e env \<Rightarrow> updater \<Rightarrow> val \<Rightarrow> 'e world \<Rightarrow> 'e world \<times> exn option" where
  "call_set E partial replace w =
     (case set_host E partial replace (store w) of
        (s', x) \<Rightarrow> (emit (Ev_set partial replace) (w\<lparr>store := s'\<rparr>), x))"

text \<open>
  The subscription callback: \<open>(state) => { set({ ...state, ...actions }, true) }\<close>.
\<close>

definition publish :: "'e env \<Rightarrow> val \<Rightarrow> 'e world \<Rightarrow> 'e world \<times> exn option" where
  "publish E state w =
     call_set E (Plain (VObj (spread2 state (VObj (actions w))))) (VBool True) w"

text \<open>
  The engine hands the snapshots of one call to the callback in order; an exception that
  escapes the callback ends the call.
\<close>

fun notify :: "'e env \<Rightarrow> val list \<Rightarrow> 'e world \<Rightarrow> 'e world \<times> exn option" where
  "notify E [] w = (w, None)"
| "notify E (s # ss) w =
     (case publish E s w of
        (w', Some x) \<Rightarrow> (w', Some x)
      | (w', None) \<Rightarrow> notify E ss w')"

text \<open>
  A method call on \<open>travels\<close>. While the variable is unassigned the property access
  throws; otherwise the engine moves to its next state and the snapshots of the call reach
  the callback if it is subscribed.
\<close>

definition engine_call ::
  "'e env \<Rightarrow> ('e \<Rightarrow> 'e \<times> val list \<times> exn option) \<Rightarrow> 'e world \<Rightarrow> 'e world \<times> exn option" where
  "engine_call E f w =
     (case travels w of
        None \<Rightarrow> (w, Some (TypeError ''Cannot read properties of undefined''))
      | Some e \<Rightarrow>
          (case f e of
             (e', snaps, err) \<Rightarrow>
               (case notify E (if subscribed w then snaps else []) (w\<lparr>travels := Some e'\<rparr>) of
                  (w', Some x) \<Rightarrow> (w', Some x)
                | (w', None) \<Rightarrow> (w', err))))"

definition call_setState :: "'e env \<Rightarrow> updater \<Rightarrow> 'e world \<Rightarrow> 'e world \<times> exn option" where
  "call_setState E u w = engine_call E (setState E u) (emit (Ev_setState u) w)"

section \<open>The dispatcher\<close>

text \<open>The procedure \<open>(draft) => { Object.assign(draft, updater) }\<close> built for a partial
  update.\<close>

definition assign_proc :: "val \<Rightarrow> updater" where
  "assign_proc v = Callable (\<lambda>draft. Inr (object_assign draft v, VUndefined))"

fun plain_of :: "updater \<Rightarrow> val" where
  "plain_of (Plain v) = v"
| "plain_of (Callable f) = VUndefined"

text \<open>The body of the \<open>try\<close> block of \<open>travelSet\<close>.\<close>

definition travelSet_try :: "'e env \<Rightarrow> updater \<Rightarrow> val \<Rightarrow> 'e world \<Rightarrow> 'e world \<times> exn option" where
  "travelSet_try E updater replace w =
     (if is_function updater then call_setState E updater w
      else if truthy replace then call_setState E updater w
      else call_setState E (assign_proc (plain_of updater)) w)"

text \<open>\<open>travelSet(updater, replace)\<close>: the state it leaves and the exception it throws, if
  any.\<close>

definition travelSet :: "'e env \<Rightarrow> updater \<Rightarrow> val \<Rightarrow> 'e world \<Rightarrow> 'e world \<times> exn option" where
  "travelSet E updater replace w =
     (if isInitializing w then call_set E updater replace w
      else if DEV E \<and> is_nullish updater
      then (w, Some (TypeError ''[zustand-travel] State updater cannot be null or undefined''))
      else
        (case travelSet_try E updater replace w of
           (w', None) \<Rightarrow> (w', None)
         | (w', Some error) \<Rightarrow>
             ((if DEV E then emit (Ev_console_error ''[zustand-travel] State update failed:'' error) w'
               else w'),
              Some error)))"

text \<open>A call on the control surface obtained from \<open>store.getControls()\<close>.\<close>

definition call_control :: "'e env \<Rightarrow> control \<Rightarrow> 'e world \<Rightarrow> 'e world \<times> exn option" where
  "call_control E c w =
     (if hasControls w then engine_call E (control_op E c) (emit (Ev_control c) w)
      else (w, Some (TypeError ''getControls is not a function'')))"

section \<open>The middleware\<close>

text \<open>
  The user's initializer, as far as the middleware can observe it: the dispatcher calls it
  makes while it runs, in order, and then the value it returns or the exception it throws.
  An exception thrown by one of those calls is taken to escape the initializer.
\<close>

record initializer =
  init_sets :: "(updater \<times> val) list"
  init_result :: "exn + val"

fun run_sets :: "'e env \<Rightarrow> (updater \<times> val) list \<Rightarrow> 'e world \<Rightarrow> 'e world \<times> exn option" where
  "run_sets E [] w = (w, None)"
| "run_sets E ((u, r) # rest) w =
     (case travelSet E u r w of
        (w', Some x) \<Rightarrow> (w', Some x)
      | (w', None) \<Rightarrow> run_sets E rest w')"

definition call_initializer :: "'e env \<Rightarrow> initializer \<Rightarrow> 'e world \<Rightarrow> 'e world \<times> (exn + val)" where
  "call_initializer E ini w =
     (case run_sets E (init_sets ini) w of
        (w', Some x) \<Rightarrow> (w', Inl x)
      | (w', None) \<Rightarrow> (w', init_result ini))"

text \<open>
  The four statements that wire the engine, lines 171 to 188 of \<open>index.ts\<close>, kept as a
  list so that the state between two of them can be named:
  \<open>travels = new Travels(dataState, {...options, mutable: false})\<close>,
  \<open>isInitializing = false\<close>, \<open>travels.subscribe(...)\<close> and
  \<open>Object.assign(store, { getControls: ... })\<close>.
\<close>

datatype stmt =
    S_new_Travels obj obj
  | S_mark_complete
  | S_subscribe
  | S_attach_getControls

fun exec_stmt :: "'e env \<Rightarrow> stmt \<Rightarrow> 'e world \<Rightarrow> 'e world \<times> exn option" where
  "exec_stmt E (S_new_Travels dataState opts) w =
     (case new_Travels E dataState opts of
        Inl x \<Rightarrow> (emit (Ev_new_Travels dataState opts) w, Some x)
      | Inr e \<Rightarrow> (emit (Ev_new_Travels dataState opts) (w\<lparr>travels := Some e\<rparr>), None))"
| "exec_stmt E S_mark_complete w = (w\<lparr>isInitializing := False\<rparr>, None)"
| "exec_stmt E S_subscribe w = (emit Ev_subscribe (w\<lparr>subscribed := True\<rparr>), None)"
| "exec_stmt E S_attach_getControls w =
     (emit Ev_attach_getControls (w\<lparr>hasControls := True\<rparr>), None)"

fun exec_stmts :: "'e env \<Rightarrow> stmt list \<Rightarrow> 'e world \<Rightarrow> 'e world \<times> exn option" where
  "exec_stmts E [] w = (w, None)"
| "exec_stmts E (c # cs) w =
     (case exec_stmt E c w of
        (w', Some x) \<Rightarrow> (w', Some x)
      | (w', None) \<Rightarrow> exec_stmts E cs w')"

definition wiring :: "obj \<Rightarrow> obj \<Rightarrow> stmt list" where
  "wiring dataState options =
     [S_new_Travels dataState (put ''mutable'' (VBool False) (object_assign [] (VObj options))),
      S_mark_complete,
      S_subscribe,
      S_attach_getControls]"

text \<open>The closure when the state creator is entered, on a host store in state \<open>s\<close>.\<close>

definition closure_init :: "val \<Rightarrow> 'e world" where
  "closure_init s =
     \<lparr>isInitializing = True, actions = [], travels = None, subscribed = False,
      store = s, hasControls = False, trace = []\<rparr>"

text \<open>The body of the \<open>try\<close> block of the state creator.\<close>

definition travelImpl_try ::
  "'e env \<Rightarrow> initializer \<Rightarrow> obj \<Rightarrow> 'e world \<Rightarrow> 'e world \<times> (exn + val)" where
  "travelImpl_try E ini options w =
     (case call_initializer E ini w of
        (w1, Inl x) \<Rightarrow> (w1, Inl x)
      | (w1, Inr initialState) \<Rightarrow>
          if DEV E \<and> nullish initialState
          then (w1, Inl (TypeError ''[zustand-travel] Initializer must return an initial state object''))
          else
            (case separateStateAndActions (DEV E) initialState of
               Inl x \<Rightarrow> (w1, Inl x)
             | Inr (dataState, extractedActions) \<Rightarrow>
                 (case exec_stmts E (wiring dataState options) (w1\<lparr>actions := extractedActions\<rparr>) of
                    (w2, Some x) \<Rightarrow> (w2, Inl x)
                  | (w2, None) \<Rightarrow> (w2, Inr initialState))))"

text \<open>
  \<open>travel(initializer, options)(set, get, store)\<close>: the closure it leaves, and the initial
  state it returns to the host or the exception it throws. The definitions follow
  \<open>src/index.ts\<close>. The second copy of that file in the source tree has neither the
  \<open>__DEV__\<close> blocks nor the \<open>try\<close> blocks, which only log and re-throw: it behaves as
  this one with \<open>__DEV__\<close> off.
\<close>

definition travelImpl ::
  "'e env \<Rightarrow> initializer \<Rightarrow> obj \<Rightarrow> val \<Rightarrow> 'e world \<times> (exn + val)" where
  "travelImpl E ini options s =
     (case travelImpl_try E ini options (closure_init s) of
        (w, Inl error) \<Rightarrow>
          ((if DEV E
            then emit (Ev_console_error ''[zustand-travel] Middleware initialization failed:'' error) w
            else w),
           Inl error)
      | (w, Inr initialState) \<Rightarrow> (w, Inr initialState))"

text \<open>What callers do with a live store: dispatch an update, or navigate.\<close>

datatype oper = Dispatch updater val | Navigate control

fun run_op :: "'e env \<Rightarrow> oper \<Rightarrow> 'e world \<Rightarrow> 'e world" where
  "run_op E (Dispatch u r) w = fst (travelSet E u r w)"
| "run_op E (Navigate c) w = fst (call_control E c w)"

fun run_ops :: "'e env \<Rightarrow> oper list \<Rightarrow> 'e world \<Rightarrow> 'e world" where
  "run_ops E [] w = w"
| "run_ops E (x # xs) w = run_ops E xs (run_op E x w)"

text \<open>The arguments of every engine construction, and every call on an engine, so far.\<close>

fun constructions :: "event list \<Rightarrow> (obj \<times> obj) list" where
  "constructions [] = []"
| "constructions (Ev_new_Travels d opts # evs) = (d, opts) # constructions evs"
| "constructions (ev # evs) = constructions evs"

fun engine_calls :: "event list \<Rightarrow> event list" where
  "engine_calls [] = []"
| "engine_calls (Ev_setState u # evs) = Ev_setState u # engine_calls evs"
| "engine_calls (Ev_control c # evs) = Ev_control c # engine_calls evs"
| "engine_calls (ev # evs) = engine_calls evs"

section \<open>A reference instance of the collaborators\<close>

text \<open>
  Modelled from the spec: the host container and the history engine are the external
  packages \<open>zustand\<close> and \<open>travels\<close>, not part of the source tree. The theorems below are
  stated for every collaborator; this instance, written after the interface of section 6
  of the specification, is the concrete one at which they are evaluated. The host's
  \<open>set\<close> replaces the state or merges into it shallowly; the engine keeps the past, the
  present and the future snapshots and commits on every \<open>setState\<close>, leaving its state
  alone when the updater throws.
\<close>

definition ref_set :: "updater \<Rightarrow> val \<Rightarrow> val \<Rightarrow> val \<times> exn option" where
  "ref_set partial replace s =
     (case (case partial of
              Plain v \<Rightarrow> Inr v
            | Callable f \<Rightarrow> (case f (own_entries s) of Inl x \<Rightarrow> Inl x | Inr (d, r) \<Rightarrow> Inr r)) of
        Inl x \<Rightarrow> (s, Some x)
      | Inr next \<Rightarrow>
          (if (if nullish replace then typeof next \<noteq> ''object'' \<or> next = VNull else truthy replace)
           then next
           else VObj (object_assign (object_assign [] s) next),
           None))"

type_synonym ref_engine = "val list \<times> val \<times> val list"

fun ref_back :: "nat \<Rightarrow> ref_engine \<Rightarrow> ref_engine" where
  "ref_back 0 e = e"
| "ref_back (Suc n) ([], cur, fut) = ([], cur, fut)"
| "ref_back (Suc n) (p # past, cur, fut) = ref_back n (past, p, cur # fut)"

fun ref_forward :: "nat \<Rightarrow> ref_engine \<Rightarrow> ref_engine" where
  "ref_forward 0 e = e"
| "ref_forward (Suc n) (past, cur, []) = (past, cur, [])"
| "ref_forward (Suc n) (past, cur, f # fut) = ref_forward n (cur # past, f, fut)"

definition ref_new :: "obj \<Rightarrow> obj \<Rightarrow> exn + ref_engine" where
  "ref_new dataState opts = Inr ([], VObj dataState, [])"

definition ref_setState :: "updater \<Rightarrow> ref_engine \<Rightarrow> ref_engine \<times> val list \<times> exn option" where
  "ref_setState u e =
     (case e of (past, cur, fut) \<Rightarrow>
        (case u of
           Plain v \<Rightarrow> ((cur # past, v, []), [v], None)
         | Callable f \<Rightarrow>
             (case f (own_entries cur) of
                Inl x \<Rightarrow> (e, [], Some x)
              | Inr (d, r) \<Rightarrow>
                  (let n = (if r = VUndefined then VObj d else r)
                   in ((cur # past, n, []), [n], None)))))"

definition ref_moved :: "ref_engine \<Rightarrow> ref_engine \<times> val list \<times> exn option" where
  "ref_moved e = (e, [fst (snd e)], None)"

fun ref_control :: "control \<Rightarrow> ref_engine \<Rightarrow> ref_engine \<times> val list \<times> exn option" where
  "ref_control (Back n) e = ref_moved (ref_back n e)"
| "ref_control (Forward n) e = ref_moved (ref_forward n e)"
| "ref_control (Go n) e = ref_moved (ref_forward n (ref_back (length (fst e)) e))"
| "ref_control Reset e = ref_moved (ref_back (length (fst e)) e)"
| "ref_control Archive e = (e, [], None)"

definition ref_env :: "bool \<Rightarrow> ref_engine env" where
  "ref_env dev =
     \<lparr>DEV = dev, set_host = ref_set, new_Travels = ref_new,
      setState = ref_setState, control_op = ref_control\<rparr>"

section \<open>Notions used to state the properties\<close>

text \<open>
  The draft-mutating procedure of the merge-equivalence property, in the specification's
  words: it assigns each of the value's own enumerable keys onto the draft,
  \<open>(draft) => { for (const k of Object.keys(v)) draft[k] = v[k] }\<close>.
\<close>

definition assign_each_key :: "val \<Rightarrow> updater" where
  "assign_each_key v =
     Callable (\<lambda>draft.
       Inr (fold (\<lambda>k d. put k (get_prop v k) d) (map fst (own_entries v)) draft, VUndefined))"

text \<open>What no call of the dispatcher, of the callback or of the control surface touches:
  the phase, the captured actions, the subscription, the store handle and the engine
  constructions made so far.\<close>

definition frame :: "'e world \<Rightarrow> 'e world \<Rightarrow> bool" where
  "frame w w' \<longleftrightarrow>
     isInitializing w' = isInitializing w \<and> actions w' = actions w \<and>
     subscribed w' = subscribed w \<and> hasControls w' = hasControls w \<and>
     constructions (trace w') = constructions (trace w)"


text \<open>
  The store of the first scenario of the specification: the initializer returns
  \<open>{count: 0, increment: f}\<close>. \<open>counter_world\<close> is the closure the state creator leaves,
  on a host that has taken the returned object as its state.
\<close>

definition counter_state :: val where
  "counter_state = VObj [(''count'', VNum 0), (''increment'', VFun 1)]"

definition counter_init :: initializer where
  "counter_init = \<lparr>init_sets = [], init_result = Inr counter_state\<rparr>"

definition counter_world :: "bool \<Rightarrow> ref_engine world" where
  "counter_world dev =
     (fst (travelImpl (ref_env dev) counter_init [] VUndefined))\<lparr>store := counter_state\<rparr>"

text \<open>
  What the host is handed when the engine hands the snapshots \<open>snaps\<close> to the callback
  of a closure whose captured actions are \<open>acts\<close>: one call
  \<open>set({...snapshot, ...actions}, true)\<close> for each, in order; and the store's state
  after those calls on a host that replaces.
\<close>

definition republished :: "obj \<Rightarrow> val list \<Rightarrow> event list" where
  "republished acts snaps =
     map (\<lambda>s. Ev_set (Plain (VObj (spread2 s (VObj acts)))) (VBool True)) snaps"

definition store_after :: "obj \<Rightarrow> val list \<Rightarrow> val \<Rightarrow> val" where
  "store_after acts snaps st =
     (if snaps = [] then st else VObj (spread2 (last snaps) (VObj acts)))"

text \<open>The argument with which the \<open>try\<close> block of \<open>travelSet\<close> calls
  \<open>travels.setState\<close>.\<close>

definition commit_arg :: "updater \<Rightarrow> val \<Rightarrow> updater" where
  "commit_arg u replace =
     (if is_function u \<or> truthy replace then u else assign_proc (plain_of u))"

section \<open>Objects as property lists\<close>

lemma map_of_fold_put:
  "distinct (map fst xs) \<Longrightarrow>
     map_of (fold (\<lambda>(k, v). put k v) xs acc) = map_of acc ++ map_of xs"
proof (induction xs arbitrary: acc)
  case Nil
  then show ?case by simp
next
  case (Cons x xs)
  obtain k v where x: "x = (k, v)" by (cases x)
  from Cons.prems x have notin: "map_of xs k = None" and d: "distinct (map fst xs)"
    by (auto simp: map_of_eq_None_iff)
  have "map_of (fold (\<lambda>(k, v). put k v) (x # xs) acc) = map_of (put k v acc) ++ map_of xs"
    using Cons.IH [OF d] x by simp
  also have "\<dots> = (map_of acc)(k \<mapsto> v) ++ map_of xs"
    by (simp add: put_def update_conv')
  also have "\<dots> = map_of acc ++ map_of (x # xs)"
    using notin x by (auto simp: map_add_def fun_eq_iff split: option.splits)
  finally show ?case .
qed

lemma keys_fold_put:
  "fst ` set (fold (\<lambda>(k, v). put k v) xs acc) = fst ` set acc \<union> fst ` set xs"
proof (induction xs arbitrary: acc)
  case Nil
  then show ?case by simp
next
  case (Cons x xs)
  obtain k v where x: "x = (k, v)" by (cases x)
  show ?case using Cons.IH [of "put k v acc"] x
    by (auto simp: put_def dom_update)
qed

section \<open>What the calls leave alone\<close>

lemma constructions_append: "constructions (xs @ ys) = constructions xs @ constructions ys"
  by (induction xs rule: constructions.induct) simp_all

lemma engine_calls_append: "engine_calls (xs @ ys) = engine_calls xs @ engine_calls ys"
  by (induction xs rule: engine_calls.induct) simp_all

lemma frame_refl: "frame w w"
  by (simp add: frame_def)

lemma frame_trans: "frame a b \<Longrightarrow> frame b c \<Longrightarrow> frame a c"
  by (simp add: frame_def)

lemma frame_call_set: "frame w (fst (call_set E u r w))"
  by (simp add: frame_def call_set_def emit_def constructions_append split: prod.splits)

lemma frame_publish: "frame w (fst (publish E s w))"
  by (simp add: publish_def frame_call_set)

lemma frame_notify: "frame w (fst (notify E ss w))"
proof (induction ss arbitrary: w)
  case Nil
  show ?case by (simp add: frame_refl)
next
  case (Cons s ss)
  obtain w' x where p: "publish E s w = (w', x)" by (cases "publish E s w")
  have f1: "frame w w'" using frame_publish [of w E s] p by simp
  show ?case
  proof (cases x)
    case None
    then show ?thesis using p f1 Cons.IH [of w'] by (auto intro: frame_trans)
  next
    case (Some y)
    then show ?thesis using p f1 by simp
  qed
qed

lemma frame_travels_upd: "frame w (w\<lparr>travels := t\<rparr>)"
  by (simp add: frame_def)

lemma frame_engine_call: "frame w (fst (engine_call E f w))"
proof (cases "travels w")
  case None
  then show ?thesis by (simp add: engine_call_def frame_refl)
next
  case (Some e)
  obtain e' snaps err where fe: "f e = (e', snaps, err)" by (cases "f e")
  let ?w1 = "w\<lparr>travels := Some e'\<rparr>"
  let ?ss = "if subscribed w then snaps else []"
  have "frame w (fst (notify E ?ss ?w1))"
    using frame_trans [OF frame_travels_upd frame_notify] .
  moreover have "fst (engine_call E f w) = fst (notify E ?ss ?w1)"
    using Some fe by (simp add: engine_call_def split: prod.splits option.splits)
  ultimately show ?thesis by simp
qed

lemma frame_emit: "constructions [ev] = [] \<Longrightarrow> frame w (emit ev w)"
  by (simp add: frame_def emit_def constructions_append)

lemma frame_call_setState: "frame w (fst (call_setState E u w))"
  unfolding call_setState_def
  by (rule frame_trans [OF frame_emit frame_engine_call]) simp

lemma frame_travelSet_try: "frame w (fst (travelSet_try E u r w))"
  by (simp add: travelSet_try_def frame_call_setState)

lemma frame_travelSet: "frame w (fst (travelSet E u r w))"
proof -
  obtain w' x where t: "travelSet_try E u r w = (w', x)" by (cases "travelSet_try E u r w")
  have f: "frame w w'" using frame_travelSet_try [of w E u r] t by simp
  have f2: "frame w (emit (Ev_console_error m y) w')" for m y
    by (rule frame_trans [OF f frame_emit]) simp
  show ?thesis
    using t f f2 by (simp add: travelSet_def frame_call_set frame_refl split: option.splits)
qed

lemma frame_call_control: "frame w (fst (call_control E c w))"
  unfolding call_control_def
  by (auto intro!: frame_trans [OF frame_emit frame_engine_call] simp: frame_refl)

lemma frame_run_op: "frame w (run_op E x w)"
  by (cases x) (simp_all add: frame_travelSet frame_call_control)

lemma frame_run_ops: "frame w (run_ops E xs w)"
proof (induction xs arbitrary: w)
  case Nil
  show ?case by (simp add: frame_refl)
next
  case (Cons x xs)
  show ?case using frame_trans [OF frame_run_op Cons.IH] by simp
qed

lemma counter_world_eq:
  "counter_world dev =
     \<lparr>isInitializing = False, actions = [(''increment'', VFun 1)],
      travels = Some ([], VObj [(''count'', VNum 0)], []), subscribed = True,
      store = VObj [(''count'', VNum 0), (''increment'', VFun 1)], hasControls = True,
      trace = [Ev_new_Travels [(''count'', VNum 0)] [(''mutable'', VBool False)],
               Ev_subscribe, Ev_attach_getControls]\<rparr>"
  by (simp add: counter_world_def travelImpl_def travelImpl_try_def counter_init_def
      counter_state_def ref_env_def call_initializer_def closure_init_def
      separateStateAndActions_def put_def wiring_def object_assign_def emit_def ref_new_def)

section \<open>The dispatcher while the initializer runs\<close>

text \<open>
  Claim C4. While the phase is Initializing, a dispatcher call hands its two arguments,
  unchanged, to the host's native \<open>set\<close>: the store becomes what that call leaves, the
  exception is the one that call throws, and the only call made is that one. The engine
  variable is not touched, no call on an engine is made and no engine is constructed, so
  the call adds no history entry.
\<close>

theorem initializing_bypass:
  assumes "isInitializing w"
  shows "travelSet E updater replace w =
           (w\<lparr>store := fst (set_host E updater replace (store w)),
              trace := trace w @ [Ev_set updater replace]\<rparr>,
            snd (set_host E updater replace (store w)))
         \<and> travels (fst (travelSet E updater replace w)) = travels w
         \<and> engine_calls (trace (fst (travelSet E updater replace w))) = engine_calls (trace w)
         \<and> constructions (trace (fst (travelSet E updater replace w))) = constructions (trace w)"
  using assms
  by (simp add: travelSet_def call_set_def emit_def engine_calls_append constructions_append
      split: prod.splits)

theorem initializing_bypass_witness:
  "isInitializing (closure_init VUndefined :: ref_engine world)
   \<and> travelSet (ref_env True) (Plain (VObj [(''count'', VNum 5)])) VUndefined (closure_init VUndefined)
       = ((closure_init VUndefined)\<lparr>store := VObj [(''count'', VNum 5)],
             trace := [Ev_set (Plain (VObj [(''count'', VNum 5)])) VUndefined]\<rparr>, None)"
  using initializing_bypass [of "closure_init VUndefined :: ref_engine world" "ref_env True"
      "Plain (VObj [(''count'', VNum 5)])" VUndefined]
  by (simp add: closure_init_def ref_env_def ref_set_def object_assign_def put_def)

text \<open>
  Claim C10. The phase test comes before the null test: while the phase is Initializing,
  a dispatcher call whose updater is \<open>null\<close> or \<open>undefined\<close> is forwarded to the host's
  native \<open>set\<close> like any other, whatever \<open>__DEV__\<close> is. The dispatcher throws only what
  that call throws.
\<close>

theorem null_updater_while_initializing:
  assumes "isInitializing w" and "is_nullish updater"
  shows "snd (travelSet E updater replace w) = snd (set_host E updater replace (store w))
         \<and> trace (fst (travelSet E updater replace w)) = trace w @ [Ev_set updater replace]
         \<and> store (fst (travelSet E updater replace w)) = fst (set_host E updater replace (store w))"
  using assms
  by (simp add: travelSet_def call_set_def emit_def split: prod.splits)

theorem null_updater_while_initializing_witness:
  "isInitializing (closure_init VUndefined :: ref_engine world) \<and> is_nullish (Plain VNull)
   \<and> DEV (ref_env True)
   \<and> snd (travelSet (ref_env True) (Plain VNull) VUndefined (closure_init VUndefined)) = None
   \<and> trace (fst (travelSet (ref_env True) (Plain VNull) VUndefined (closure_init VUndefined)))
       = [Ev_set (Plain VNull) VUndefined]"
  using null_updater_while_initializing [of "closure_init VUndefined :: ref_engine world"
      "Plain VNull" "ref_env True" VUndefined]
  by (simp add: closure_init_def ref_env_def ref_set_def)

section \<open>The null updater on a live store\<close>

text \<open>
  Claim C7, as the code has it. With \<open>__DEV__\<close> on and the phase Active, a dispatcher call
  whose updater is \<open>null\<close> or \<open>undefined\<close> throws the \<open>TypeError\<close> of the null check and
  leaves everything as it was: the store, the engine, and the list of calls made, so the
  engine is not reached and nothing is logged.
\<close>

theorem null_updater_rejected:
  assumes "DEV E" and "\<not> isInitializing w" and "is_nullish updater"
  shows "travelSet E updater replace w =
           (w, Some (TypeError ''[zustand-travel] State updater cannot be null or undefined''))"
  using assms by (simp add: travelSet_def)

theorem null_updater_rejected_witness:
  "DEV (ref_env True) \<and> \<not> isInitializing (counter_world True) \<and> is_nullish (Plain VUndefined)
   \<and> travelSet (ref_env True) (Plain VUndefined) VUndefined (counter_world True) =
       (counter_world True,
        Some (TypeError ''[zustand-travel] State updater cannot be null or undefined''))"
  using null_updater_rejected [of "ref_env True" "counter_world True" "Plain VUndefined" VUndefined]
  by (simp add: counter_world_eq ref_env_def)

text \<open>
  Claim C7, as stated, fails. With \<open>__DEV__\<close> off, \<open>null\<close> dispatched on the live counter
  store throws nothing and reaches the engine's \<open>setState\<close>; with \<open>__DEV__\<close> on, \<open>null\<close>
  dispatched while the phase is Initializing throws nothing either.
\<close>

theorem null_updater_counterexample:
  "snd (travelSet (ref_env False) (Plain VNull) VUndefined (counter_world False)) = None
   \<and> length (engine_calls (trace (fst (travelSet (ref_env False) (Plain VNull) VUndefined
         (counter_world False))))) = 1
   \<and> snd (travelSet (ref_env True) (Plain VNull) VUndefined
         (closure_init VUndefined :: ref_engine world)) = None"
  by (simp add: counter_world_eq travelSet_def travelSet_try_def call_setState_def engine_call_def
      ref_env_def ref_setState_def assign_proc_def object_assign_def emit_def publish_def
      call_set_def ref_set_def spread2_def put_def closure_init_def Let_def)

section \<open>The state creator\<close>

lemma travels_call_set: "travels (fst (call_set E u r w)) = travels w"
  by (simp add: call_set_def emit_def split: prod.splits)

lemma run_sets_initializing:
  "isInitializing w \<Longrightarrow>
     isInitializing (fst (run_sets E cs w)) \<and> travels (fst (run_sets E cs w)) = travels w
     \<and> constructions (trace (fst (run_sets E cs w))) = constructions (trace w)"
proof (induction cs arbitrary: w)
  case Nil
  then show ?case by simp
next
  case (Cons c cs)
  obtain u r where c: "c = (u, r)" by (cases c)
  obtain w' x where t: "travelSet E u r w = (w', x)" by (cases "travelSet E u r w")
  have f: "frame w w'" using frame_travelSet [of w E u r] t by simp
  have tr: "travels w' = travels w"
    using t Cons.prems travels_call_set [of E u r w] by (simp add: travelSet_def)
  from f Cons.prems have i: "isInitializing w'" by (simp add: frame_def)
  show ?case
  proof (cases x)
    case None
    then show ?thesis using c t f tr Cons.IH [OF i] by (simp add: frame_def)
  next
    case (Some y)
    then show ?thesis using c t f tr i by (simp add: frame_def)
  qed
qed

lemma call_initializer_initializing:
  assumes "call_initializer E ini (closure_init s) = (w1, res)"
  shows "isInitializing w1 \<and> travels w1 = None \<and> constructions (trace w1) = []"
proof -
  have "isInitializing (closure_init s :: 'a world)" by (simp add: closure_init_def)
  from run_sets_initializing [OF this, of E "init_sets ini"]
  have "isInitializing (fst (run_sets E (init_sets ini) (closure_init s)))
        \<and> travels (fst (run_sets E (init_sets ini) (closure_init s))) = None
        \<and> constructions (trace (fst (run_sets E (init_sets ini) (closure_init s)))) = []"
    by (simp add: closure_init_def)
  moreover have "w1 = fst (run_sets E (init_sets ini) (closure_init s))"
    using assms by (auto simp: call_initializer_def split: prod.splits option.splits)
  ultimately show ?thesis by simp
qed

text \<open>
  Claim C6, as the code has it. With \<open>__DEV__\<close> on, when the initializer returns a value
  that is not an object, or \<open>null\<close>, or an array, the state creator throws a \<open>TypeError\<close>
  naming the defect. It happens before any engine is constructed: no constructor call
  has been made and the engine variable is still unassigned. The failure is logged and
  the closure is otherwise as the initializer left it.
\<close>

theorem invalid_initial_state_dev:
  assumes "DEV E"
    and "call_initializer E ini (closure_init s) = (w1, Inr r)"
    and "typeof r \<noteq> ''object'' \<or> r = VNull \<or> isArray r"
  shows "travelImpl E ini options s =
           (emit (Ev_console_error ''[zustand-travel] Middleware initialization failed:''
                    (TypeError
                       (if nullish r then ''[zustand-travel] Initializer must return an initial state object''
                        else if typeof r \<noteq> ''object''
                        then ''[zustand-travel] Expected an object as initial state, received: '' @ typeof r
                        else ''[zustand-travel] Expected an object as initial state, received an array''))) w1,
            Inl (TypeError
                   (if nullish r then ''[zustand-travel] Initializer must return an initial state object''
                    else if typeof r \<noteq> ''object''
                    then ''[zustand-travel] Expected an object as initial state, received: '' @ typeof r
                    else ''[zustand-travel] Expected an object as initial state, received an array'')))
         \<and> constructions (trace (fst (travelImpl E ini options s))) = []
         \<and> travels (fst (travelImpl E ini options s)) = None"
proof -
  from call_initializer_initializing [OF assms(2)]
  have w1: "travels w1 = None" "constructions (trace w1) = []" by simp_all
  show ?thesis
    using assms w1
    by (cases r)
       (simp_all add: travelImpl_def travelImpl_try_def separateStateAndActions_def emit_def
          constructions_append)
qed

theorem invalid_initial_state_dev_witness:
  "DEV (ref_env True)
   \<and> call_initializer (ref_env True) \<lparr>init_sets = [], init_result = Inr (VArr [])\<rparr> (closure_init VUndefined)
       = (closure_init VUndefined, Inr (VArr []))
   \<and> isArray (VArr [])
   \<and> snd (travelImpl (ref_env True) \<lparr>init_sets = [], init_result = Inr (VArr [])\<rparr> [] VUndefined)
       = Inl (TypeError ''[zustand-travel] Expected an object as initial state, received an array'')
   \<and> constructions (trace (fst (travelImpl (ref_env True) \<lparr>init_sets = [], init_result = Inr (VArr [])\<rparr> [] VUndefined))) = []"
proof -
  have a: "DEV (ref_env True)" by (simp add: ref_env_def)
  have b: "call_initializer (ref_env True) \<lparr>init_sets = [], init_result = Inr (VArr [])\<rparr>
             (closure_init VUndefined) = (closure_init VUndefined, Inr (VArr []))"
    by (simp add: call_initializer_def)
  have c: "typeof (VArr []) \<noteq> ''object'' \<or> VArr [] = VNull \<or> isArray (VArr [])" by simp
  from invalid_initial_state_dev [OF a b c, of "[]"] a b c show ?thesis
    by (simp add: emit_def closure_init_def)
qed

text \<open>
  Claim C6, as stated, fails. With \<open>__DEV__\<close> off nothing is validated: an initializer
  that returns the empty array, or the number 7, yields a store, and for the array an
  engine has been constructed on the empty data object.
\<close>

theorem invalid_initial_state_counterexample:
  "snd (travelImpl (ref_env False) \<lparr>init_sets = [], init_result = Inr (VArr [])\<rparr> [] VUndefined)
     = Inr (VArr [])
   \<and> constructions (trace (fst (travelImpl (ref_env False)
         \<lparr>init_sets = [], init_result = Inr (VArr [])\<rparr> [] VUndefined)))
     = [([], [(''mutable'', VBool False)])]
   \<and> snd (travelImpl (ref_env False) \<lparr>init_sets = [], init_result = Inr (VNum 7)\<rparr> [] VUndefined)
     = Inr (VNum 7)"
  by (simp add: travelImpl_def travelImpl_try_def ref_env_def call_initializer_def closure_init_def
      separateStateAndActions_def put_def wiring_def object_assign_def emit_def ref_new_def)

section \<open>Wiring the engine\<close>

lemma exec_wiring:
  "exec_stmts E (wiring d options) w =
     (case new_Travels E d (put ''mutable'' (VBool False) (object_assign [] (VObj options))) of
        Inl x \<Rightarrow>
          (emit (Ev_new_Travels d (put ''mutable'' (VBool False) (object_assign [] (VObj options)))) w,
           Some x)
      | Inr e \<Rightarrow>
          (w\<lparr>travels := Some e, isInitializing := False, subscribed := True, hasControls := True,
             trace := trace w @ [Ev_new_Travels d (put ''mutable'' (VBool False) (object_assign [] (VObj options))),
                                 Ev_subscribe, Ev_attach_getControls]\<rparr>,
           None))"
  by (simp add: wiring_def emit_def split: sum.splits)

lemma travelImpl_success:
  assumes "snd (travelImpl E ini options s) = Inr r"
  shows "\<exists>w1 dataState acts e.
           call_initializer E ini (closure_init s) = (w1, Inr r)
           \<and> separateStateAndActions (DEV E) r = Inr (dataState, acts)
           \<and> new_Travels E dataState (put ''mutable'' (VBool False) (object_assign [] (VObj options))) = Inr e
           \<and> fst (travelImpl E ini options s) =
               w1\<lparr>actions := acts, travels := Some e, isInitializing := False, subscribed := True,
                  hasControls := True,
                  trace := trace w1 @ [Ev_new_Travels dataState
                             (put ''mutable'' (VBool False) (object_assign [] (VObj options))),
                           Ev_subscribe, Ev_attach_getControls]\<rparr>"
proof -
  obtain w1 res where ci: "call_initializer E ini (closure_init s) = (w1, res)"
    by (cases "call_initializer E ini (closure_init s)")
  show ?thesis
    using assms ci
    by (auto simp: travelImpl_def travelImpl_try_def exec_wiring
        split: sum.splits if_splits prod.splits option.splits)
qed

lemma mutable_forced: "map_of (put ''mutable'' (VBool False) ob) ''mutable'' = Some (VBool False)"
  by (simp add: put_def update_conv')

text \<open>
  Claim C9. Whenever the state creator succeeds, whatever the caller's options are, one
  engine has been constructed and no later dispatch or navigation constructs another:
  the constructor was called once, on the data half of the partition of the initial
  state, with the caller's options overlaid by \<open>mutable: false\<close>, so that a \<open>mutable\<close>
  entry of the caller is overridden.
\<close>

theorem engine_constructed_once:
  assumes "snd (travelImpl E ini options s) = Inr r"
  shows "\<exists>dataState acts.
           separateStateAndActions (DEV E) r = Inr (dataState, acts)
           \<and> (\<forall>ops. constructions (trace (run_ops E ops (fst (travelImpl E ini options s)))) =
                 [(dataState, put ''mutable'' (VBool False) (object_assign [] (VObj options)))])
           \<and> map_of (put ''mutable'' (VBool False) (object_assign [] (VObj options))) ''mutable''
               = Some (VBool False)"
proof -
  from travelImpl_success [OF assms] obtain w1 dataState acts e where
    ci: "call_initializer E ini (closure_init s) = (w1, Inr r)" and
    sep: "separateStateAndActions (DEV E) r = Inr (dataState, acts)" and
    w: "fst (travelImpl E ini options s) =
               w1\<lparr>actions := acts, travels := Some e, isInitializing := False, subscribed := True,
                  hasControls := True,
                  trace := trace w1 @ [Ev_new_Travels dataState
                             (put ''mutable'' (VBool False) (object_assign [] (VObj options))),
                           Ev_subscribe, Ev_attach_getControls]\<rparr>"
    by blast
  from call_initializer_initializing [OF ci] have c1: "constructions (trace w1) = []" by simp
  have c2: "constructions (trace (fst (travelImpl E ini options s))) =
              [(dataState, put ''mutable'' (VBool False) (object_assign [] (VObj options)))]"
    using w c1 by (simp add: constructions_append)
  have "constructions (trace (run_ops E ops (fst (travelImpl E ini options s)))) =
          [(dataState, put ''mutable'' (VBool False) (object_assign [] (VObj options)))]" for ops
    using frame_run_ops [of "fst (travelImpl E ini options s)" E ops] c2 by (simp add: frame_def)
  with sep mutable_forced show ?thesis by blast
qed

theorem engine_constructed_once_witness:
  "snd (travelImpl (ref_env True) counter_init [(''maxHistory'', VNum 3), (''mutable'', VBool True)] VUndefined)
     = Inr counter_state
   \<and> constructions (trace (fst (travelImpl (ref_env True) counter_init
         [(''maxHistory'', VNum 3), (''mutable'', VBool True)] VUndefined)))
     = [([(''count'', VNum 0)], [(''maxHistory'', VNum 3), (''mutable'', VBool False)])]"
proof -
  have a: "snd (travelImpl (ref_env True) counter_init
              [(''maxHistory'', VNum 3), (''mutable'', VBool True)] VUndefined) = Inr counter_state"
    by (simp add: travelImpl_def travelImpl_try_def counter_init_def
      counter_state_def ref_env_def call_initializer_def closure_init_def
      separateStateAndActions_def put_def wiring_def object_assign_def emit_def ref_new_def)
  have s: "separateStateAndActions True counter_state
             = Inr ([(''count'', VNum 0)], [(''increment'', VFun 1)])"
    by (simp add: separateStateAndActions_def counter_state_def put_def)
  let ?W = "fst (travelImpl (ref_env True) counter_init
         [(''maxHistory'', VNum 3), (''mutable'', VBool True)] VUndefined)"
  let ?opts = "put ''mutable'' (VBool False)
              (object_assign [] (VObj [(''maxHistory'', VNum 3), (''mutable'', VBool True)]))"
  from engine_constructed_once [OF a] obtain d acts where
    sep: "separateStateAndActions (DEV (ref_env True)) counter_state = Inr (d, acts)" and
    all: "\<forall>ops. constructions (trace (run_ops (ref_env True) ops ?W)) = [(d, ?opts)]"
    by blast
  from all have "constructions (trace (run_ops (ref_env True) [] ?W)) = [(d, ?opts)]"
    by (rule spec)
  moreover have "d = [(''count'', VNum 0)]"
    using sep s by (simp add: ref_env_def)
  ultimately show ?thesis using a by (simp add: put_def object_assign_def)
qed

section \<open>The phase\<close>

lemma take_wiring_cases:
  "take n (wiring d opts) = [] \<or> take n (wiring d opts) = [S_new_Travels d (put ''mutable'' (VBool False) (object_assign [] (VObj opts)))]
   \<or> take n (wiring d opts) = [S_new_Travels d (put ''mutable'' (VBool False) (object_assign [] (VObj opts))), S_mark_complete]
   \<or> take n (wiring d opts) = [S_new_Travels d (put ''mutable'' (VBool False) (object_assign [] (VObj opts))), S_mark_complete, S_subscribe]
   \<or> take n (wiring d opts) = wiring d opts"
proof -
  consider "n = 0" | "n = 1" | "n = 2" | "n = 3" | "4 \<le> n" by linarith
  then show ?thesis
    by cases (simp_all add: wiring_def numeral_2_eq_2 numeral_3_eq_3)
qed

text \<open>
  Claim C5, as the code has it. The phase is Initializing when the state creator is
  entered and still so when the initializer has run. Between any two of the wiring
  statements, the phase is Active only if the engine has been constructed. When the state
  creator returns normally the phase is Active, the engine exists and the callback is
  subscribed. Once Active, the phase stays Active under every sequence of dispatches and
  navigations.
\<close>

theorem phase_monotone:
  "isInitializing (closure_init s :: 'e world)
   \<and> isInitializing (fst (call_initializer E ini (closure_init s)))
   \<and> (isInitializing w0 \<and> \<not> isInitializing (fst (exec_stmts E (take n (wiring d opts)) w0))
        \<longrightarrow> (\<exists>e. travels (fst (exec_stmts E (take n (wiring d opts)) w0)) = Some e
                 \<and> new_Travels E d (put ''mutable'' (VBool False) (object_assign [] (VObj opts))) = Inr e))
   \<and> (snd (travelImpl E ini options s) = Inr r
        \<longrightarrow> \<not> isInitializing (fst (travelImpl E ini options s))
            \<and> travels (fst (travelImpl E ini options s)) \<noteq> None
            \<and> subscribed (fst (travelImpl E ini options s)))
   \<and> (\<not> isInitializing w \<longrightarrow> \<not> isInitializing (run_ops E ops w))"
proof -
  have a: "isInitializing (closure_init s :: 'e world)" by (simp add: closure_init_def)
  have b: "isInitializing (fst (call_initializer E ini (closure_init s)))"
    using call_initializer_initializing [of E ini s]
    by (cases "call_initializer E ini (closure_init s)") simp
  have c: "isInitializing w0 \<and> \<not> isInitializing (fst (exec_stmts E (take n (wiring d opts)) w0))
        \<longrightarrow> (\<exists>e. travels (fst (exec_stmts E (take n (wiring d opts)) w0)) = Some e
                 \<and> new_Travels E d (put ''mutable'' (VBool False) (object_assign [] (VObj opts))) = Inr e)"
    using take_wiring_cases [of n d opts]
    by (auto simp: exec_wiring emit_def split: sum.splits)
  have d: "snd (travelImpl E ini options s) = Inr r
        \<longrightarrow> \<not> isInitializing (fst (travelImpl E ini options s))
            \<and> travels (fst (travelImpl E ini options s)) \<noteq> None
            \<and> subscribed (fst (travelImpl E ini options s))"
    using travelImpl_success [of E ini options s r] by auto
  have e: "\<not> isInitializing w \<longrightarrow> \<not> isInitializing (run_ops E ops w)"
    using frame_run_ops [of w E ops] by (simp add: frame_def)
  from a b c d e show ?thesis by blast
qed

theorem phase_monotone_witness:
  "isInitializing ((closure_init VUndefined :: ref_engine world)\<lparr>actions := [(''increment'', VFun 1)]\<rparr>)
   \<and> \<not> isInitializing (fst (exec_stmts (ref_env True) (take 2 (wiring [(''count'', VNum 0)] []))
          ((closure_init VUndefined)\<lparr>actions := [(''increment'', VFun 1)]\<rparr>)))
   \<and> travels (fst (exec_stmts (ref_env True) (take 2 (wiring [(''count'', VNum 0)] []))
          ((closure_init VUndefined)\<lparr>actions := [(''increment'', VFun 1)]\<rparr>)))
       = Some ([], VObj [(''count'', VNum 0)], [])
   \<and> snd (travelImpl (ref_env True) counter_init [] VUndefined) = Inr counter_state
   \<and> \<not> isInitializing (fst (travelImpl (ref_env True) counter_init [] VUndefined))
   \<and> subscribed (fst (travelImpl (ref_env True) counter_init [] VUndefined))
   \<and> \<not> isInitializing (counter_world True)
   \<and> \<not> isInitializing (run_ops (ref_env True)
          [Dispatch (Plain (VObj [(''count'', VNum 10)])) VUndefined, Navigate (Back (Suc 0))]
          (counter_world True))"
proof -
  have a: "snd (travelImpl (ref_env True) counter_init [] VUndefined) = Inr counter_state"
    by (simp add: travelImpl_def travelImpl_try_def counter_init_def
      counter_state_def ref_env_def call_initializer_def closure_init_def
      separateStateAndActions_def put_def wiring_def object_assign_def emit_def ref_new_def)
  have b: "\<not> isInitializing (counter_world True)" by (simp add: counter_world_eq)
  have c: "isInitializing ((closure_init VUndefined :: ref_engine world)\<lparr>actions := [(''increment'', VFun 1)]\<rparr>)"
    by (simp add: closure_init_def)
  have d: "\<not> isInitializing (fst (exec_stmts (ref_env True) (take 2 (wiring [(''count'', VNum 0)] []))
          ((closure_init VUndefined)\<lparr>actions := [(''increment'', VFun 1)]\<rparr>)))"
    by (simp add: wiring_def numeral_2_eq_2 ref_env_def ref_new_def emit_def closure_init_def)
  have e: "new_Travels (ref_env True) [(''count'', VNum 0)]
             (put ''mutable'' (VBool False) (object_assign [] (VObj []))) = Inr ([], VObj [(''count'', VNum 0)], [])"
    by (simp add: ref_env_def ref_new_def)
  from phase_monotone [of VUndefined "ref_env True" counter_init
      "(closure_init VUndefined)\<lparr>actions := [(''increment'', VFun 1)]\<rparr>" 2 "[(''count'', VNum 0)]" "[]"
      "[]" counter_state "counter_world True"
      "[Dispatch (Plain (VObj [(''count'', VNum 10)])) VUndefined, Navigate (Back (Suc 0))]"]
    a b c d e
  show ?thesis by auto
qed

text \<open>
  Claim C5, as stated, fails: \<open>isInitializing = false\<close> is the statement before
  \<open>travels.subscribe(...)\<close>. After the first two wiring statements of the counter store
  the phase is Active and the callback is not subscribed yet.
\<close>

theorem phase_active_before_subscribe:
  "\<not> isInitializing (fst (exec_stmts (ref_env True) (take 2 (wiring [(''count'', VNum 0)] []))
        ((closure_init VUndefined)\<lparr>actions := [(''increment'', VFun 1)]\<rparr>)))
   \<and> \<not> subscribed (fst (exec_stmts (ref_env True) (take 2 (wiring [(''count'', VNum 0)] []))
        ((closure_init VUndefined)\<lparr>actions := [(''increment'', VFun 1)]\<rparr>)))
   \<and> Ev_subscribe \<notin> set (trace (fst (exec_stmts (ref_env True) (take 2 (wiring [(''count'', VNum 0)] []))
        ((closure_init VUndefined)\<lparr>actions := [(''increment'', VFun 1)]\<rparr>))))"
  by (simp add: wiring_def numeral_2_eq_2 ref_env_def ref_new_def emit_def closure_init_def)

section \<open>Republishing snapshots\<close>

lemma spread2_lookup_action:
  assumes "distinct (map fst acts)" and "(k, v) \<in> set acts"
  shows "map_of (spread2 snapshot (VObj acts)) k = Some v"
proof -
  have "map_of (spread2 snapshot (VObj acts)) = map_of (object_assign [] snapshot) ++ map_of acts"
    using assms(1) by (simp add: spread2_def object_assign_def map_of_fold_put)
  moreover have "map_of acts k = Some v" using assms by simp
  ultimately show ?thesis by (simp add: map_add_Some_iff)
qed

lemma spread2_keys:
  "fst ` set (spread2 a b) = fst ` set (own_entries a) \<union> fst ` set (own_entries b)"
  by (simp add: spread2_def object_assign_def keys_fold_put)

lemma spread2_lookup_absent:
  assumes "k \<notin> fst ` set (own_entries snapshot)" and "k \<notin> fst ` set acts"
  shows "map_of (spread2 snapshot (VObj acts)) k = None"
  using assms spread2_keys [of snapshot "VObj acts"] by (simp add: map_of_eq_None_iff)

lemma spread2_lookup_data:
  assumes "distinct (map fst acts)" and "distinct (map fst (own_entries snapshot))"
    and "k \<notin> fst ` set acts"
  shows "map_of (spread2 snapshot (VObj acts)) k = map_of (own_entries snapshot) k"
proof -
  have "map_of (spread2 snapshot (VObj acts)) = (Map.empty ++ map_of (own_entries snapshot)) ++ map_of acts"
    using assms(1,2) by (simp add: spread2_def object_assign_def map_of_fold_put)
  moreover have "map_of acts k = None" using assms(3) by (simp add: map_of_eq_None_iff)
  ultimately show ?thesis by (simp add: map_add_def)
qed

lemma publish_eq:
  "publish E snapshot w =
     (w\<lparr>store := fst (set_host E (Plain (VObj (spread2 snapshot (VObj (actions w))))) (VBool True) (store w)),
        trace := trace w @ [Ev_set (Plain (VObj (spread2 snapshot (VObj (actions w))))) (VBool True)]\<rparr>,
      snd (set_host E (Plain (VObj (spread2 snapshot (VObj (actions w))))) (VBool True) (store w)))"
  by (simp add: publish_def call_set_def emit_def split: prod.splits)

lemma notify_trace:
  assumes "actions w = acts"
    and "\<And>s st. set_host E (Plain (VObj (spread2 s (VObj acts)))) (VBool True) st
                  = (VObj (spread2 s (VObj acts)), None)"
  shows "notify E snaps w =
           (w\<lparr>store := (if snaps = [] then store w else VObj (spread2 (last snaps) (VObj acts))),
              trace := trace w @ map (\<lambda>s. Ev_set (Plain (VObj (spread2 s (VObj acts)))) (VBool True)) snaps\<rparr>,
            None)"
  using assms(1)
proof (induction snaps arbitrary: w)
  case Nil
  then show ?case by simp
next
  case (Cons s ss)
  let ?w' = "w\<lparr>store := VObj (spread2 s (VObj acts)),
                trace := trace w @ [Ev_set (Plain (VObj (spread2 s (VObj acts)))) (VBool True)]\<rparr>"
  have p: "publish E s w = (?w', None)"
    using Cons.prems assms(2) by (simp add: publish_eq)
  have "actions ?w' = acts" using Cons.prems by simp
  from Cons.IH [OF this] p show ?case by simp
qed

lemma separate_loop_distinct:
  "distinct (map fst st) \<Longrightarrow> distinct (map fst ac) \<Longrightarrow>
     distinct (map fst (fst (separate_loop xs (st, ac))))
     \<and> distinct (map fst (snd (separate_loop xs (st, ac))))"
proof (induction xs arbitrary: st ac)
  case Nil
  then show ?case by simp
next
  case (Cons x xs)
  obtain k v where x: "x = (k, v)" by (cases x)
  show ?case
    using Cons.IH [of st "put k v ac"] Cons.IH [of "put k v st" ac] Cons.prems x
    by (simp add: put_def distinct_update)
qed

lemma separate_distinct:
  assumes "separateStateAndActions dev r = Inr (dataState, acts)"
  shows "distinct (map fst acts)"
  using assms separate_loop_distinct [of "[]" "[]" "own_entries r"]
  by (auto simp: separateStateAndActions_def split: if_splits)

lemma travels_notify: "travels (fst (notify E ss w)) = travels w"
proof (induction ss arbitrary: w)
  case Nil
  show ?case by simp
next
  case (Cons s ss)
  show ?case using Cons.IH [of "fst (publish E s w)"]
    by (cases "snd (publish E s w)") (auto simp: publish_eq split: prod.splits)
qed

lemma travels_engine_call:
  assumes "travels w \<noteq> None"
  shows "travels (fst (engine_call E f w)) \<noteq> None"
proof -
  from assms obtain e where e: "travels w = Some e" by auto
  obtain e' snaps err where fe: "f e = (e', snaps, err)" by (cases "f e")
  let ?n = "notify E (if subscribed w then snaps else []) (w\<lparr>travels := Some e'\<rparr>)"
  have "fst (engine_call E f w) = fst ?n"
    using e fe by (simp add: engine_call_def split: prod.splits option.splits)
  moreover have "travels (fst ?n) = Some e'"
    using travels_notify [of E "if subscribed w then snaps else []" "w\<lparr>travels := Some e'\<rparr>"]
    by simp
  ultimately show ?thesis by simp
qed

lemma travels_run_op: "travels w \<noteq> None \<Longrightarrow> travels (run_op E x w) \<noteq> None"
proof (cases x)
  case (Dispatch u r)
  assume t: "travels w \<noteq> None"
  have c: "travels (fst (call_setState E u' w)) \<noteq> None" for u'
    unfolding call_setState_def using t by (intro travels_engine_call) (simp add: emit_def)
  then have "travels (fst (travelSet_try E u r w)) \<noteq> None" by (simp add: travelSet_try_def)
  then show ?thesis
    using Dispatch t travels_call_set [of E u r w]
    by (auto simp: travelSet_def emit_def split: prod.splits option.splits)
next
  case (Navigate c)
  assume t: "travels w \<noteq> None"
  have "travels (fst (engine_call E (control_op E c) (emit (Ev_control c) w))) \<noteq> None"
    using t by (intro travels_engine_call) (simp add: emit_def)
  then show ?thesis using Navigate t by (simp add: call_control_def)
qed

lemma travels_run_ops: "travels w \<noteq> None \<Longrightarrow> travels (run_ops E xs w) \<noteq> None"
proof (induction xs arbitrary: w)
  case Nil
  then show ?case by simp
next
  case (Cons x xs)
  from Cons.IH [OF travels_run_op [OF Cons.prems]] show ?case by simp
qed

lemma engine_call_subscribed:
  assumes "subscribed w" and "travels w = Some e" and "f e = (e', snaps, err)"
    and "\<And>ob st. set_host E (Plain (VObj ob)) (VBool True) st = (VObj ob, None)"
  shows "engine_call E f w =
           (w\<lparr>travels := Some e', store := store_after (actions w) snaps (store w),
              trace := trace w @ republished (actions w) snaps\<rparr>, err)"
proof -
  have "notify E snaps (w\<lparr>travels := Some e'\<rparr>) =
          (w\<lparr>travels := Some e', store := store_after (actions w) snaps (store w),
             trace := trace w @ republished (actions w) snaps\<rparr>, None)"
    using notify_trace [of "w\<lparr>travels := Some e'\<rparr>" "actions w" E snaps] assms(4)
    by (simp add: store_after_def republished_def)
  then show ?thesis using assms(1-3) by (simp add: engine_call_def)
qed

lemma call_control_live:
  assumes "hasControls w" and "subscribed w" and "travels w = Some e"
    and "control_op E c e = (e', snaps, err)"
    and "\<And>ob st. set_host E (Plain (VObj ob)) (VBool True) st = (VObj ob, None)"
  shows "call_control E c w =
           (w\<lparr>travels := Some e', store := store_after (actions w) snaps (store w),
              trace := trace w @ Ev_control c # republished (actions w) snaps\<rparr>, err)"
  using assms(1)
    engine_call_subscribed [of "emit (Ev_control c) w" e "control_op E c" e' snaps err E, OF _ _ assms(4,5)]
    assms(2,3)
  by (simp add: call_control_def emit_def)

lemma travelSet_live:
  assumes "\<not> isInitializing w" and "subscribed w" and "travels w = Some e"
    and "setState E (commit_arg u replace) e = (e', snaps, err)"
    and "\<not> (DEV E \<and> is_nullish u)"
    and "\<And>ob st. set_host E (Plain (VObj ob)) (VBool True) st = (VObj ob, None)"
  shows "travelSet E u replace w =
           (w\<lparr>travels := Some e', store := store_after (actions w) snaps (store w),
              trace := trace w @ Ev_setState (commit_arg u replace) # republished (actions w) snaps
                @ (case err of None \<Rightarrow> []
                   | Some x \<Rightarrow>
                       if DEV E then [Ev_console_error ''[zustand-travel] State update failed:'' x]
                       else [])\<rparr>, err)"
proof -
  have t: "travelSet_try E u replace w = call_setState E (commit_arg u replace) w"
    by (simp add: travelSet_try_def commit_arg_def)
  have c: "call_setState E (commit_arg u replace) w =
             (w\<lparr>travels := Some e', store := store_after (actions w) snaps (store w),
                trace := trace w @ Ev_setState (commit_arg u replace) # republished (actions w) snaps\<rparr>,
              err)"
    using engine_call_subscribed [of "emit (Ev_setState (commit_arg u replace)) w" e
        "setState E (commit_arg u replace)" e' snaps err E, OF _ _ assms(4,6)] assms(2,3)
    by (simp add: call_setState_def emit_def)
  show ?thesis
    using assms(1,5) t c by (cases err) (auto simp: travelSet_def emit_def)
qed

text \<open>
  Claim C1. Let the state creator succeed, on a host whose \<open>set(value, true)\<close> replaces
  the state by the value, and take the store at any later moment, after any sequence of
  dispatches and navigations. The callback is subscribed and the engine exists. Every
  snapshot the engine hands out from then on, during a call on the control surface or
  during a dispatch, reaches the host as one call \<open>set({...snapshot, ...actions}, true)\<close>,
  in the order emitted, and the store's state is then the object built from the last
  snapshot. In such an object every captured action is present under its key, a key that
  is neither in the snapshot nor among the actions is absent, and a data key reads as in
  the snapshot.
\<close>

theorem publish_full_replacement:
  assumes "snd (travelImpl E ini options s) = Inr r"
    and "\<And>ob st. set_host E (Plain (VObj ob)) (VBool True) st = (VObj ob, None)"
  shows
    "(let acts = actions (fst (travelImpl E ini options s));
          w = run_ops E ops ((fst (travelImpl E ini options s))\<lparr>store := r\<rparr>)
      in subscribed w \<and> actions w = acts
         \<and> publish E snapshot w =
               (w\<lparr>store := VObj (spread2 snapshot (VObj acts)),
                  trace := trace w @ republished acts [snapshot]\<rparr>, None)
         \<and> (case travels w of
               None \<Rightarrow> False
             | Some e \<Rightarrow>
                 (case control_op E c e of
                    (e', snaps, err) \<Rightarrow>
                      call_control E c w =
                        (w\<lparr>travels := Some e', store := store_after acts snaps (store w),
                           trace := trace w @ Ev_control c # republished acts snaps\<rparr>, err))
                 \<and> (case setState E (commit_arg u replace) e of
                      (e', snaps, err) \<Rightarrow>
                        \<not> (DEV E \<and> is_nullish u) \<longrightarrow>
                        travelSet E u replace w =
                          (w\<lparr>travels := Some e', store := store_after acts snaps (store w),
                             trace := trace w @ Ev_setState (commit_arg u replace) # republished acts snaps
                               @ (case err of None \<Rightarrow> []
                                  | Some x \<Rightarrow>
                                      if DEV E
                                      then [Ev_console_error ''[zustand-travel] State update failed:'' x]
                                      else [])\<rparr>, err)))
         \<and> (\<forall>(k, v) \<in> set acts. map_of (spread2 snapshot (VObj acts)) k = Some v)
         \<and> (k \<notin> fst ` set (own_entries snapshot) \<and> k \<notin> fst ` set acts
              \<longrightarrow> map_of (spread2 snapshot (VObj acts)) k = None)
         \<and> (distinct (map fst (own_entries snapshot)) \<and> k \<notin> fst ` set acts
              \<longrightarrow> map_of (spread2 snapshot (VObj acts)) k = map_of (own_entries snapshot) k))"
proof -
  let ?W = "fst (travelImpl E ini options s)"
  let ?w = "run_ops E ops (?W\<lparr>store := r\<rparr>)"
  from travelImpl_success [OF assms(1)] obtain w1 dataState acts e0 where
    sep: "separateStateAndActions (DEV E) r = Inr (dataState, acts)" and
    w: "?W = w1\<lparr>actions := acts, travels := Some e0, isInitializing := False, subscribed := True,
                  hasControls := True,
                  trace := trace w1 @ [Ev_new_Travels dataState
                             (put ''mutable'' (VBool False) (object_assign [] (VObj options))),
                           Ev_subscribe, Ev_attach_getControls]\<rparr>"
    by blast
  have f: "frame (?W\<lparr>store := r\<rparr>) ?w" by (rule frame_run_ops)
  have live: "\<not> isInitializing ?w" "subscribed ?w" "hasControls ?w" "actions ?w = actions ?W"
    using f w by (simp_all add: frame_def)
  have "travels (?W\<lparr>store := r\<rparr>) \<noteq> None" using w by simp
  from travels_run_ops [OF this, of E ops] obtain e where e: "travels ?w = Some e" by auto
  have d: "distinct (map fst (actions ?W))" using separate_distinct [OF sep] w by simp
  obtain e1 snaps1 err1 where c: "control_op E c e = (e1, snaps1, err1)"
    by (cases "control_op E c e")
  obtain e2 snaps2 err2 where t: "setState E (commit_arg u replace) e = (e2, snaps2, err2)"
    by (cases "setState E (commit_arg u replace) e")
  have cc: "call_control E c ?w =
              (?w\<lparr>travels := Some e1, store := store_after (actions ?W) snaps1 (store ?w),
                 trace := trace ?w @ Ev_control c # republished (actions ?W) snaps1\<rparr>, err1)"
    using call_control_live [OF live(3) live(2) e c assms(2)] live(4) by simp
  have tt: "travelSet E u replace ?w =
              (?w\<lparr>travels := Some e2, store := store_after (actions ?W) snaps2 (store ?w),
                 trace := trace ?w @ Ev_setState (commit_arg u replace) # republished (actions ?W) snaps2
                   @ (case err2 of None \<Rightarrow> []
                      | Some x \<Rightarrow>
                          if DEV E then [Ev_console_error ''[zustand-travel] State update failed:'' x]
                          else [])\<rparr>, err2)"
    if "\<not> (DEV E \<and> is_nullish u)"
    using travelSet_live [OF live(1) live(2) e t that assms(2)] live(4) by simp
  have k1: "\<forall>(k, v) \<in> set (actions ?W). map_of (spread2 snapshot (VObj (actions ?W))) k = Some v"
    using d by (auto simp: spread2_lookup_action)
  have k2: "k \<notin> fst ` set (own_entries snapshot) \<and> k \<notin> fst ` set (actions ?W)
              \<longrightarrow> map_of (spread2 snapshot (VObj (actions ?W))) k = None"
    by (simp add: spread2_lookup_absent)
  have k3: "distinct (map fst (own_entries snapshot)) \<and> k \<notin> fst ` set (actions ?W)
              \<longrightarrow> map_of (spread2 snapshot (VObj (actions ?W))) k = map_of (own_entries snapshot) k"
    using d by (simp add: spread2_lookup_data)
  have pb: "publish E snapshot ?w =
              (?w\<lparr>store := VObj (spread2 snapshot (VObj (actions ?W))),
                 trace := trace ?w @ republished (actions ?W) [snapshot]\<rparr>, None)"
    using assms(2) live(4) by (simp add: publish_eq republished_def)
  show ?thesis
    unfolding Let_def
    using live(2,4) pb e c t cc tt k1 k2 k3 by simp
qed

theorem publish_full_replacement_witness:
  "snd (travelImpl (ref_env True) counter_init [] VUndefined) = Inr counter_state
   \<and> subscribed (run_ops (ref_env True) [Dispatch (Plain (VObj [(''count'', VNum 10)])) VUndefined]
        (counter_world True))
   \<and> store (run_ops (ref_env True) [Dispatch (Plain (VObj [(''count'', VNum 10)])) VUndefined]
        (counter_world True))
       = VObj [(''count'', VNum 10), (''increment'', VFun 1)]
   \<and> store (fst (travelSet (ref_env True)
        (Plain (VObj [(''count'', VNum 5), (''name'', VStr ''x'')])) (VBool True)
        (run_ops (ref_env True) [Dispatch (Plain (VObj [(''count'', VNum 10)])) VUndefined]
           (counter_world True))))
       = VObj [(''count'', VNum 5), (''name'', VStr ''x''), (''increment'', VFun 1)]
   \<and> store (fst (call_control (ref_env True) (Back (Suc 0))
        (run_ops (ref_env True) [Dispatch (Plain (VObj [(''count'', VNum 10)])) VUndefined]
           (counter_world True))))
       = VObj [(''count'', VNum 0), (''increment'', VFun 1)]
   \<and> map_of (spread2 (VObj [(''count'', VNum 5)]) (VObj [(''increment'', VFun 1)])) ''stale'' = None"
proof -
  let ?ops = "[Dispatch (Plain (VObj [(''count'', VNum 10)])) VUndefined]"
  let ?w = "run_ops (ref_env True) ?ops (counter_world True)"
  have a: "snd (travelImpl (ref_env True) counter_init [] VUndefined) = Inr counter_state"
    by (simp add: travelImpl_def travelImpl_try_def counter_init_def
      counter_state_def ref_env_def call_initializer_def closure_init_def
      separateStateAndActions_def put_def wiring_def object_assign_def emit_def ref_new_def)
  have b: "set_host (ref_env True) (Plain (VObj ob)) (VBool True) st = (VObj ob, None)" for ob st
    by (simp add: ref_env_def ref_set_def)
  have acts: "actions (fst (travelImpl (ref_env True) counter_init [] VUndefined))
                = [(''increment'', VFun 1)]"
    by (simp add: travelImpl_def travelImpl_try_def counter_init_def
      counter_state_def ref_env_def call_initializer_def closure_init_def
      separateStateAndActions_def put_def wiring_def object_assign_def emit_def ref_new_def)
  have lw: "?w = (counter_world True)
      \<lparr>travels := Some ([VObj [(''count'', VNum 0)]], VObj [(''count'', VNum 10)], []),
       store := VObj [(''count'', VNum 10), (''increment'', VFun 1)],
       trace := trace (counter_world True) @
          [Ev_setState (assign_proc (VObj [(''count'', VNum 10)])),
           Ev_set (Plain (VObj [(''count'', VNum 10), (''increment'', VFun 1)])) (VBool True)]\<rparr>"
    by (simp add: counter_world_eq travelSet_def travelSet_try_def call_setState_def engine_call_def
        publish_def call_set_def emit_def spread2_def object_assign_def put_def assign_proc_def
        ref_env_def ref_set_def ref_setState_def Let_def)
  have lw': "fst (travelSet (ref_env True) (Plain (VObj [(''count'', VNum 10)])) VUndefined
                 (counter_world True)) = (counter_world True)
      \<lparr>travels := Some ([VObj [(''count'', VNum 0)]], VObj [(''count'', VNum 10)], []),
       store := VObj [(''count'', VNum 10), (''increment'', VFun 1)],
       trace := trace (counter_world True) @
          [Ev_setState (assign_proc (VObj [(''count'', VNum 10)])),
           Ev_set (Plain (VObj [(''count'', VNum 10), (''increment'', VFun 1)])) (VBool True)]\<rparr>"
    using lw by simp
  have c: "control_op (ref_env True) (Back (Suc 0))
             ([VObj [(''count'', VNum 0)]], VObj [(''count'', VNum 10)], [])
           = (([], VObj [(''count'', VNum 0)], [VObj [(''count'', VNum 10)]]),
              [VObj [(''count'', VNum 0)]], None)"
    by (simp add: ref_env_def ref_moved_def)
  have t: "setState (ref_env True)
             (commit_arg (Plain (VObj [(''count'', VNum 5), (''name'', VStr ''x'')])) (VBool True))
             ([VObj [(''count'', VNum 0)]], VObj [(''count'', VNum 10)], [])
           = (([VObj [(''count'', VNum 10)], VObj [(''count'', VNum 0)]],
               VObj [(''count'', VNum 5), (''name'', VStr ''x'')], []),
              [VObj [(''count'', VNum 5), (''name'', VStr ''x'')]], None)"
    by (simp add: ref_env_def ref_setState_def commit_arg_def)
  have n: "\<not> (DEV (ref_env True) \<and> is_nullish (Plain (VObj [(''count'', VNum 5), (''name'', VStr ''x'')])))"
    by simp
  from publish_full_replacement [where ops = ?ops and c = "Back (Suc 0)"
      and u = "Plain (VObj [(''count'', VNum 5), (''name'', VStr ''x'')])" and replace = "VBool True"
      and snapshot = "VObj [(''count'', VNum 5)]" and k = "''stale''", OF a b]
  have th: "subscribed ?w
     \<and> call_control (ref_env True) (Back (Suc 0)) ?w =
         (?w\<lparr>travels := Some ([], VObj [(''count'', VNum 0)], [VObj [(''count'', VNum 10)]]),
            store := store_after [(''increment'', VFun 1)] [VObj [(''count'', VNum 0)]] (store ?w),
            trace := trace ?w @ Ev_control (Back (Suc 0))
               # republished [(''increment'', VFun 1)] [VObj [(''count'', VNum 0)]]\<rparr>, None)
     \<and> travelSet (ref_env True) (Plain (VObj [(''count'', VNum 5), (''name'', VStr ''x'')])) (VBool True) ?w =
         (?w\<lparr>travels := Some ([VObj [(''count'', VNum 10)], VObj [(''count'', VNum 0)]],
                               VObj [(''count'', VNum 5), (''name'', VStr ''x'')], []),
            store := store_after [(''increment'', VFun 1)]
                       [VObj [(''count'', VNum 5), (''name'', VStr ''x'')]] (store ?w),
            trace := trace ?w @ Ev_setState
                 (commit_arg (Plain (VObj [(''count'', VNum 5), (''name'', VStr ''x'')])) (VBool True))
               # republished [(''increment'', VFun 1)] [VObj [(''count'', VNum 5), (''name'', VStr ''x'')]]\<rparr>,
          None)
     \<and> map_of (spread2 (VObj [(''count'', VNum 5)]) (VObj [(''increment'', VFun 1)])) ''stale'' = None"
    using c t n
    by (simp add: Let_def acts counter_world_def [symmetric] lw')
  then show ?thesis
    using a lw' by (simp add: store_after_def spread2_def object_assign_def put_def)
qed

section \<open>Partial updates\<close>

lemma fold_put_by_key:
  assumes "\<forall>(k, v) \<in> set ys. g k = v"
  shows "fold (\<lambda>(k, v). put k v) ys d = fold (\<lambda>k d. put k (g k) d) (map fst ys) d"
  using assms
proof (induction ys arbitrary: d)
  case Nil
  then show ?case by simp
next
  case (Cons y ys)
  obtain k v where y: "y = (k, v)" by (cases y)
  with Cons.prems have "g k = v" and "\<forall>(k, v) \<in> set ys. g k = v" by auto
  with Cons.IH [of "put k v d"] y show ?case by simp
qed

lemma assign_proc_eq:
  assumes "distinct (map fst (own_entries v))"
  shows "assign_proc v = assign_each_key v"
proof -
  have "\<forall>(k, x) \<in> set (own_entries v). get_prop v k = x"
    using assms by (auto simp: get_prop_def)
  from fold_put_by_key [OF this]
  show ?thesis by (simp add: assign_proc_def assign_each_key_def object_assign_def)
qed

text \<open>
  Claim C3. In the Active phase, dispatching a plain value that is not callable (and, when
  \<open>__DEV__\<close> is on, not \<open>null\<close> or \<open>undefined\<close>) with a falsy \<open>replace\<close> has the same result
  as dispatching the procedure that assigns each of the value's own enumerable keys onto
  the draft: the same engine state, the same store state, the same calls, the same
  exception if any.
\<close>

theorem merge_equivalence:
  assumes "\<not> isInitializing w"
    and "\<not> truthy replace"
    and "typeof v \<noteq> ''function''"
    and "\<not> (DEV E \<and> nullish v)"
    and "distinct (map fst (own_entries v))"
  shows "travelSet E (Plain v) replace w = travelSet E (assign_each_key v) replace' w"
proof -
  have eq: "assign_proc v = assign_each_key v" using assms(5) by (rule assign_proc_eq)
  have fn: "is_function (assign_each_key v)" "\<not> is_nullish (assign_each_key v)"
    by (simp_all add: assign_each_key_def)
  have nn: "(DEV E \<and> is_nullish (Plain v)) = False" using assms(4) by simp
  have nf: "\<not> is_function (Plain v)" using assms(3) by simp
  have l: "travelSet_try E (Plain v) replace w = call_setState E (assign_each_key v) w"
    using nf assms(2) eq by (simp add: travelSet_try_def)
  have r: "travelSet_try E (assign_each_key v) replace' w = call_setState E (assign_each_key v) w"
    using fn by (simp add: travelSet_try_def)
  show ?thesis
    using assms(1) nn fn(2) l r by (auto simp: travelSet_def)
qed

theorem merge_equivalence_witness:
  "\<not> isInitializing (counter_world True) \<and> \<not> truthy VUndefined
   \<and> typeof (VObj [(''count'', VNum 10)]) \<noteq> ''function''
   \<and> \<not> (DEV (ref_env True) \<and> nullish (VObj [(''count'', VNum 10)]))
   \<and> distinct (map fst (own_entries (VObj [(''count'', VNum 10)])))
   \<and> travelSet (ref_env True) (Plain (VObj [(''count'', VNum 10)])) VUndefined (counter_world True)
       = travelSet (ref_env True) (assign_each_key (VObj [(''count'', VNum 10)])) VUndefined (counter_world True)
   \<and> store (fst (travelSet (ref_env True) (assign_each_key (VObj [(''count'', VNum 10)])) VUndefined
        (counter_world True)))
       = VObj [(''count'', VNum 10), (''increment'', VFun 1)]
   \<and> travels (fst (travelSet (ref_env True) (assign_each_key (VObj [(''count'', VNum 10)])) VUndefined
        (counter_world True)))
       = Some ([VObj [(''count'', VNum 0)]], VObj [(''count'', VNum 10)], [])"
proof -
  have a: "\<not> isInitializing (counter_world True)" by (simp add: counter_world_eq)
  have b: "\<not> truthy VUndefined" by simp
  have c: "typeof (VObj [(''count'', VNum 10)]) \<noteq> ''function''" by simp
  have d: "\<not> (DEV (ref_env True) \<and> nullish (VObj [(''count'', VNum 10)]))" by simp
  have e: "distinct (map fst (own_entries (VObj [(''count'', VNum 10)])))" by simp
  have f: "travelSet (ref_env True) (Plain (VObj [(''count'', VNum 10)])) VUndefined (counter_world True)
     = ((counter_world True)\<lparr>travels := Some ([VObj [(''count'', VNum 0)]], VObj [(''count'', VNum 10)], []),
          store := VObj [(''count'', VNum 10), (''increment'', VFun 1)],
          trace := trace (counter_world True) @
            [Ev_setState (assign_proc (VObj [(''count'', VNum 10)])),
             Ev_set (Plain (VObj [(''count'', VNum 10), (''increment'', VFun 1)])) (VBool True)]\<rparr>, None)"
    by (simp add: counter_world_eq travelSet_def travelSet_try_def call_setState_def engine_call_def
        publish_def call_set_def emit_def spread2_def object_assign_def put_def assign_proc_def
        ref_env_def ref_set_def ref_setState_def Let_def)
  from merge_equivalence [OF a b c d e, of VUndefined, symmetric] a b c d e f
  show ?thesis by simp
qed

section \<open>Exceptions from the engine\<close>

text \<open>
  Claim C8. In the Active phase, when the engine's \<open>setState\<close> throws, having handed no
  snapshot to its subscribers (the engine's own guarantee when an updater throws), the
  dispatcher throws that same value, after logging it if \<open>__DEV__\<close> is on, and the store's
  state is what it was. The updater may be callable, in which case it is forwarded as it
  is, or a plain value.
\<close>

theorem updater_exception_propagates:
  assumes "\<not> isInitializing w" and "travels w = Some e"
    and "\<not> (DEV E \<and> is_nullish u)"
    and "setState E (if is_function u \<or> truthy replace then u else assign_proc (plain_of u)) e
           = (e', [], Some x)"
  shows "snd (travelSet E u replace w) = Some x
         \<and> store (fst (travelSet E u replace w)) = store w
         \<and> trace (fst (travelSet E u replace w)) =
             trace w @ [Ev_setState (if is_function u \<or> truthy replace then u else assign_proc (plain_of u))]
                     @ (if DEV E then [Ev_console_error ''[zustand-travel] State update failed:'' x] else [])
         \<and> frame w (fst (travelSet E u replace w))"
proof -
  let ?arg = "if is_function u \<or> truthy replace then u else assign_proc (plain_of u)"
  have t: "travelSet_try E u replace w = call_setState E ?arg w"
    by (simp add: travelSet_try_def)
  have c: "call_setState E ?arg w =
             (w\<lparr>travels := Some e', trace := trace w @ [Ev_setState ?arg]\<rparr>, Some x)"
    using assms(2,4) by (simp add: call_setState_def engine_call_def emit_def)
  have "travelSet E u replace w =
          (if DEV E
           then emit (Ev_console_error ''[zustand-travel] State update failed:'' x)
                  (w\<lparr>travels := Some e', trace := trace w @ [Ev_setState ?arg]\<rparr>)
           else w\<lparr>travels := Some e', trace := trace w @ [Ev_setState ?arg]\<rparr>, Some x)"
    using assms(1,3) t c by (auto simp: travelSet_def)
  then show ?thesis
    using frame_travelSet [of w E u replace] by (simp add: emit_def)
qed

theorem updater_exception_propagates_witness:
  "\<not> isInitializing (counter_world True)
   \<and> travels (counter_world True) = Some ([], VObj [(''count'', VNum 0)], [])
   \<and> setState (ref_env True) (Callable (\<lambda>draft. Inl (Raised (VStr ''Intentional error''))))
        ([], VObj [(''count'', VNum 0)], [])
       = (([], VObj [(''count'', VNum 0)], []), [], Some (Raised (VStr ''Intentional error'')))
   \<and> snd (travelSet (ref_env True) (Callable (\<lambda>draft. Inl (Raised (VStr ''Intentional error''))))
        VUndefined (counter_world True)) = Some (Raised (VStr ''Intentional error''))
   \<and> store (fst (travelSet (ref_env True) (Callable (\<lambda>draft. Inl (Raised (VStr ''Intentional error''))))
        VUndefined (counter_world True))) = VObj [(''count'', VNum 0), (''increment'', VFun 1)]"
proof -
  let ?u = "Callable (\<lambda>draft. Inl (Raised (VStr ''Intentional error'')))"
  have a: "\<not> isInitializing (counter_world True)" by (simp add: counter_world_eq)
  have b: "travels (counter_world True) = Some ([], VObj [(''count'', VNum 0)], [])"
    by (simp add: counter_world_eq)
  have c: "\<not> (DEV (ref_env True) \<and> is_nullish ?u)" by simp
  have d: "setState (ref_env True) (if is_function ?u \<or> truthy VUndefined then ?u else assign_proc (plain_of ?u))
             ([], VObj [(''count'', VNum 0)], [])
           = (([], VObj [(''count'', VNum 0)], []), [], Some (Raised (VStr ''Intentional error'')))"
    by (simp add: ref_env_def ref_setState_def)
  from updater_exception_propagates [OF a b c d] a b d
  show ?thesis by (simp add: counter_world_eq)
qed

section \<open>The captured actions\<close>













end
